theory Spec2Isabelle
  imports Main "HOL-Library.Word" "HOL-Library.Multiset"
begin

unbundle bit_operations_syntax

section \<open>Data model of \<^verbatim>\<open>bitset.h\<close>\<close>

text \<open>
  \<^verbatim>\<open>size_t\<close> is taken as a 64-bit unsigned integer (the LP64 data model); its
  arithmetic wraps modulo \<open>2 ^ 64\<close>.
\<close>

type_synonym size_t = "64 word"

text \<open>The four status codes \<^verbatim>\<open>BITSET_GOOD\<close> (0), \<^verbatim>\<open>BITSET_NULL_ERR\<close> (1),
  \<^verbatim>\<open>BITSET_ALLOC_ERR\<close> (2) and \<^verbatim>\<open>BITSET_LENGTH_ERR\<close> (3).\<close>

datatype status = BITSET_GOOD | BITSET_NULL_ERR | BITSET_ALLOC_ERR | BITSET_LENGTH_ERR

text \<open>
  Behaviour that C leaves undefined is a value of the model: an integer division by zero,
  and a read or write outside an allocated buffer.
\<close>

datatype fault = DivByZero | OutOfBounds

text \<open>
  \<^verbatim>\<open>struct bitset_t { _Bool *bits; size_t len; }\<close>. The pointer \<^verbatim>\<open>bits\<close> is either
  \<^verbatim>\<open>NULL\<close> (\<open>None\<close>) or points to an allocated buffer, modelled by the list of its cells:
  the length of the list is the size of the allocation, which the field \<^verbatim>\<open>len\<close> only
  records. A handle \<^verbatim>\<open>bitset *b\<close> is a \<open>bitset option\<close>, \<open>None\<close> for \<^verbatim>\<open>NULL\<close>.
\<close>

record bitset =
  bits :: "bool list option"
  len :: size_t

type_synonym 'a result = "fault + 'a"

definition bind_f :: "'a result \<Rightarrow> ('a \<Rightarrow> 'b result) \<Rightarrow> 'b result" where
  "bind_f r k = (case r of Inl e \<Rightarrow> Inl e | Inr v \<Rightarrow> k v)"

definition CHAR_LEN :: size_t where
  "CHAR_LEN = 8"

section \<open>Memory primitives on buffers of \<^verbatim>\<open>_Bool\<close>\<close>

text \<open>
  Offsets and counts are in cells (\<^verbatim>\<open>sizeof(_Bool)\<close> is 1). Each primitive checks that
  the ranges it touches lie inside the allocations; outside them the C behaviour is
  undefined.
\<close>

text \<open>\<^verbatim>\<open>calloc(n, sizeof(_Bool))\<close>: the flag says whether the allocator finds the memory.\<close>

definition calloc_bits :: "bool \<Rightarrow> nat \<Rightarrow> bool list option" where
  "calloc_bits ok cnt = (if ok then Some (replicate cnt False) else None)"

text \<open>\<^verbatim>\<open>memset(buf + off, 0, cnt)\<close>.\<close>

definition memset0 :: "bool list \<Rightarrow> nat \<Rightarrow> nat \<Rightarrow> bool list result" where
  "memset0 buf off cnt =
     (if off + cnt \<le> length buf
      then Inr (take off buf @ replicate cnt False @ drop (off + cnt) buf)
      else Inl OutOfBounds)"

text \<open>\<^verbatim>\<open>memmove(buf + dst, buf + src, cnt)\<close> inside one buffer (the ranges may overlap).\<close>

definition memmove_bits :: "bool list \<Rightarrow> nat \<Rightarrow> nat \<Rightarrow> nat \<Rightarrow> bool list result" where
  "memmove_bits buf dst src cnt =
     (if src + cnt \<le> length buf \<and> dst + cnt \<le> length buf
      then Inr (take dst buf @ take cnt (drop src buf) @ drop (dst + cnt) buf)
      else Inl OutOfBounds)"

text \<open>\<^verbatim>\<open>memcpy(temp, buf + src, cnt)\<close> into a fresh scratch buffer of \<open>cnt\<close> cells.\<close>

definition memcpy_out :: "bool list \<Rightarrow> nat \<Rightarrow> nat \<Rightarrow> bool list result" where
  "memcpy_out buf src cnt =
     (if src + cnt \<le> length buf then Inr (take cnt (drop src buf)) else Inl OutOfBounds)"

text \<open>\<^verbatim>\<open>memcpy(buf + dst, tmp, cnt)\<close> from another buffer.\<close>

definition memcpy_in :: "bool list \<Rightarrow> nat \<Rightarrow> bool list \<Rightarrow> nat \<Rightarrow> bool list result" where
  "memcpy_in buf dst tmp cnt =
     (if cnt \<le> length tmp \<and> dst + cnt \<le> length buf
      then Inr (take dst buf @ take cnt tmp @ drop (dst + cnt) buf)
      else Inl OutOfBounds)"

section \<open>Rotations\<close>

text \<open>
  \<^verbatim>\<open>bitset_lrot\<close>. The first argument says whether \<^verbatim>\<open>malloc\<close> succeeds. The expression
  \<^verbatim>\<open>n % b->len\<close> is evaluated after the check of the handle and of the buffer, and is
  undefined when \<^verbatim>\<open>b->len\<close> is 0.
\<close>

definition bitset_lrot :: "bool \<Rightarrow> bitset option \<Rightarrow> size_t \<Rightarrow> (status \<times> bitset option) result" where
  "bitset_lrot ok bo n =
     (case bo of
        None \<Rightarrow> Inr (BITSET_NULL_ERR, None)
      | Some b \<Rightarrow>
          (case bits b of
             None \<Rightarrow> Inr (BITSET_NULL_ERR, Some b)
           | Some buf \<Rightarrow>
               if len b = 0 then Inl DivByZero
               else if n mod len b = 0 then Inr (BITSET_GOOD, Some b)
               else
                 let n' = n mod len b;
                     rot = len b - n'
                 in if \<not> ok then Inr (BITSET_ALLOC_ERR, Some b)
                    else
                      bind_f (memcpy_out buf 0 (unat n')) (\<lambda>temp.
                      bind_f (memmove_bits buf 0 (unat n') (unat rot)) (\<lambda>buf1.
                      bind_f (memcpy_in buf1 (unat rot) temp (unat n')) (\<lambda>buf2.
                      Inr (BITSET_GOOD, Some (b\<lparr>bits := Some buf2\<rparr>)))))))"

text \<open>\<^verbatim>\<open>bitset_rrot\<close>, the mirror: the tail is staged and written back at the head.\<close>

definition bitset_rrot :: "bool \<Rightarrow> bitset option \<Rightarrow> size_t \<Rightarrow> (status \<times> bitset option) result" where
  "bitset_rrot ok bo n =
     (case bo of
        None \<Rightarrow> Inr (BITSET_NULL_ERR, None)
      | Some b \<Rightarrow>
          (case bits b of
             None \<Rightarrow> Inr (BITSET_NULL_ERR, Some b)
           | Some buf \<Rightarrow>
               if len b = 0 then Inl DivByZero
               else if n mod len b = 0 then Inr (BITSET_GOOD, Some b)
               else
                 let n' = n mod len b;
                     rot = len b - n'
                 in if \<not> ok then Inr (BITSET_ALLOC_ERR, Some b)
                    else
                      bind_f (memcpy_out buf (unat rot) (unat n')) (\<lambda>temp.
                      bind_f (memmove_bits buf (unat n') 0 (unat rot)) (\<lambda>buf1.
                      bind_f (memcpy_in buf1 0 temp (unat n')) (\<lambda>buf2.
                      Inr (BITSET_GOOD, Some (b\<lparr>bits := Some buf2\<rparr>)))))))"

section \<open>Shifts\<close>

text \<open>\<^verbatim>\<open>bitset_lsh\<close>: cells slide toward index 0, the upper cells are cleared.\<close>

definition bitset_lsh :: "bitset option \<Rightarrow> size_t \<Rightarrow> (status \<times> bitset option) result" where
  "bitset_lsh bo n =
     (case bo of
        None \<Rightarrow> Inr (BITSET_NULL_ERR, None)
      | Some b \<Rightarrow>
          (case bits b of
             None \<Rightarrow> Inr (BITSET_NULL_ERR, Some b)
           | Some buf \<Rightarrow>
               if n = 0 then Inr (BITSET_GOOD, Some b)
               else if n \<ge> len b then
                 bind_f (memset0 buf 0 (unat (len b))) (\<lambda>buf1.
                 Inr (BITSET_GOOD, Some (b\<lparr>bits := Some buf1\<rparr>)))
               else
                 let sh = len b - n
                 in bind_f (memmove_bits buf 0 (unat n) (unat sh)) (\<lambda>buf1.
                    bind_f (memset0 buf1 (unat sh) (unat n)) (\<lambda>buf2.
                    Inr (BITSET_GOOD, Some (b\<lparr>bits := Some buf2\<rparr>))))))"

text \<open>\<^verbatim>\<open>bitset_rsh\<close>: cells slide toward higher indices, the lower cells are cleared.\<close>

definition bitset_rsh :: "bitset option \<Rightarrow> size_t \<Rightarrow> (status \<times> bitset option) result" where
  "bitset_rsh bo n =
     (case bo of
        None \<Rightarrow> Inr (BITSET_NULL_ERR, None)
      | Some b \<Rightarrow>
          (case bits b of
             None \<Rightarrow> Inr (BITSET_NULL_ERR, Some b)
           | Some buf \<Rightarrow>
               if n = 0 then Inr (BITSET_GOOD, Some b)
               else if n \<ge> len b then
                 bind_f (memset0 buf 0 (unat (len b))) (\<lambda>buf1.
                 Inr (BITSET_GOOD, Some (b\<lparr>bits := Some buf1\<rparr>)))
               else
                 let sh = len b - n
                 in bind_f (memmove_bits buf (unat n) 0 (unat sh)) (\<lambda>buf1.
                    bind_f (memset0 buf1 0 (unat n)) (\<lambda>buf2.
                    Inr (BITSET_GOOD, Some (b\<lparr>bits := Some buf2\<rparr>))))))"

section \<open>Elementwise operators\<close>

text \<open>
  The loops \<^verbatim>\<open>for (size_t i = 0; i < lhs->len; i++) lhs->bits[i] op= rhs->bits[i]\<close>.
  The counter stays below \<^verbatim>\<open>len\<close>, so \<^verbatim>\<open>i++\<close> never wraps and it is a \<open>nat\<close>. An index
  outside either buffer is a fault. The three operators differ in the operation on
  the two cells only, which is the first argument.
\<close>

function binop_loop ::
  "(bool \<Rightarrow> bool \<Rightarrow> bool) \<Rightarrow> nat \<Rightarrow> nat \<Rightarrow> bool list \<Rightarrow> bool list \<Rightarrow> bool list result" where
  "binop_loop f i n l r =
     (if i < n then
        (if i < length l \<and> i < length r
         then binop_loop f (Suc i) n (l[i := f (l ! i) (r ! i)]) r
         else Inl OutOfBounds)
      else Inr l)"
  by pat_completeness auto
termination
  by (relation "measure (\<lambda>(f, i, n, l, r). n - i)") auto

text \<open>
  The binary operators take the two handles and give back the status with both
  operands as the call leaves them; the right operand is \<^verbatim>\<open>const\<close> and never written.
\<close>

definition bitset_binop ::
  "(bool \<Rightarrow> bool \<Rightarrow> bool) \<Rightarrow> bitset option \<Rightarrow> bitset option
     \<Rightarrow> (status \<times> bitset option \<times> bitset option) result" where
  "bitset_binop f lo ro =
     (case (lo, ro) of
        (Some lhs, Some rhs) \<Rightarrow>
          (case (bits lhs, bits rhs) of
             (Some l, Some r) \<Rightarrow>
               if len lhs \<noteq> len rhs then Inr (BITSET_LENGTH_ERR, lo, ro)
               else bind_f (binop_loop f 0 (unat (len lhs)) l r) (\<lambda>l'.
                    Inr (BITSET_GOOD, Some (lhs\<lparr>bits := Some l'\<rparr>), ro))
           | _ \<Rightarrow> Inr (BITSET_NULL_ERR, lo, ro))
      | _ \<Rightarrow> Inr (BITSET_NULL_ERR, lo, ro))"

definition bitset_and ::
  "bitset option \<Rightarrow> bitset option \<Rightarrow> (status \<times> bitset option \<times> bitset option) result" where
  "bitset_and = bitset_binop (\<lambda>x y. x \<and> y)"

definition bitset_or ::
  "bitset option \<Rightarrow> bitset option \<Rightarrow> (status \<times> bitset option \<times> bitset option) result" where
  "bitset_or = bitset_binop (\<lambda>x y. x \<or> y)"

definition bitset_xor ::
  "bitset option \<Rightarrow> bitset option \<Rightarrow> (status \<times> bitset option \<times> bitset option) result" where
  "bitset_xor = bitset_binop (\<lambda>x y. x \<noteq> y)"

text \<open>The loop of \<^verbatim>\<open>bitset_not\<close> (\<open>f\<close> is negation) and of \<^verbatim>\<open>bitset_reset\<close>
  (\<open>f\<close> is constantly false): \<^verbatim>\<open>b->bits[i] = f(b->bits[i])\<close> for \<open>i < len\<close>.\<close>

function unop_loop :: "(bool \<Rightarrow> bool) \<Rightarrow> nat \<Rightarrow> nat \<Rightarrow> bool list \<Rightarrow> bool list result" where
  "unop_loop f i n l =
     (if i < n then
        (if i < length l then unop_loop f (Suc i) n (l[i := f (l ! i)])
         else Inl OutOfBounds)
      else Inr l)"
  by pat_completeness auto
termination
  by (relation "measure (\<lambda>(f, i, n, l). n - i)") auto

definition bitset_not :: "bitset option \<Rightarrow> (status \<times> bitset option) result" where
  "bitset_not bo =
     (case bo of
        None \<Rightarrow> Inr (BITSET_NULL_ERR, None)
      | Some b \<Rightarrow>
          (case bits b of
             None \<Rightarrow> Inr (BITSET_NULL_ERR, Some b)
           | Some buf \<Rightarrow>
               bind_f (unop_loop (\<lambda>x. if x then False else True) 0 (unat (len b)) buf) (\<lambda>buf1.
               Inr (BITSET_GOOD, Some (b\<lparr>bits := Some buf1\<rparr>)))))"

text \<open>\<^verbatim>\<open>bitset_reset\<close> returns nothing; the model gives the handle's bitset after the call.\<close>

definition bitset_reset :: "bitset option \<Rightarrow> bitset option result" where
  "bitset_reset bo =
     (case bo of
        None \<Rightarrow> Inr None
      | Some b \<Rightarrow>
          (case bits b of
             None \<Rightarrow> Inr (Some b)
           | Some buf \<Rightarrow>
               bind_f (unop_loop (\<lambda>x. False) 0 (unat (len b)) buf) (\<lambda>buf1.
               Inr (Some (b\<lparr>bits := Some buf1\<rparr>)))))"

text \<open>\<^verbatim>\<open>bitset_free\<close>: the buffer is released and the pointer cleared.\<close>

definition bitset_free :: "bitset option \<Rightarrow> bitset option" where
  "bitset_free bo = (case bo of None \<Rightarrow> None | Some b \<Rightarrow> Some (b\<lparr>bits := None\<rparr>))"

section \<open>Constructors\<close>

text \<open>\<^verbatim>\<open>bitset_init\<close>. The length is stored before the allocation is attempted.\<close>

definition bitset_init :: "bool \<Rightarrow> bitset option \<Rightarrow> size_t \<Rightarrow> (status \<times> bitset option) result" where
  "bitset_init ok bo n =
     (case bo of
        None \<Rightarrow> Inr (BITSET_NULL_ERR, None)
      | Some b \<Rightarrow>
          if n = 0 then Inr (BITSET_NULL_ERR, Some b)
          else
            let b1 = b\<lparr>len := n\<rparr>;
                b2 = b1\<lparr>bits := calloc_bits ok (unat n)\<rparr>
            in if bits b2 = None then Inr (BITSET_ALLOC_ERR, Some b2)
               else Inr (BITSET_GOOD, Some b2))"

text \<open>
  A C string is the list of its characters before the terminator; the byte at the
  position of the length is the terminator \<^verbatim>\<open>'\0'\<close>. The loops below stop at the
  first \<^verbatim>\<open>'\0'\<close> and so never read past it.
\<close>

definition c_str :: "string \<Rightarrow> nat \<Rightarrow> char" where
  "c_str s i = (if i < length s then s ! i else CHR 0x00)"

text \<open>The loop of \<^verbatim>\<open>bitset_init_bstr\<close>:
  \<^verbatim>\<open>for (i = 0; i < n && str[i] != '\0'; i++) b->bits[i] = (str[i] == '1')\<close>.\<close>

function bstr_loop :: "nat \<Rightarrow> nat \<Rightarrow> string \<Rightarrow> bool list \<Rightarrow> bool list result" where
  "bstr_loop i n s buf =
     (if i < n \<and> c_str s i \<noteq> CHR 0x00 then
        (if i < length buf then bstr_loop (Suc i) n s (buf[i := (c_str s i = CHR ''1'')])
         else Inl OutOfBounds)
      else Inr buf)"
  by pat_completeness auto
termination
  by (relation "measure (\<lambda>(i, n, s, buf). n - i)") auto

definition bitset_init_bstr ::
  "bool \<Rightarrow> bitset option \<Rightarrow> string option \<Rightarrow> size_t \<Rightarrow> (status \<times> bitset option) result" where
  "bitset_init_bstr ok bo so n =
     (case (bo, so) of
        (Some b, Some s) \<Rightarrow>
          if n = 0 then Inr (BITSET_NULL_ERR, bo)
          else
            let b1 = b\<lparr>len := n\<rparr>;
                b2 = b1\<lparr>bits := calloc_bits ok (unat n)\<rparr>
            in (case bits b2 of
                  None \<Rightarrow> Inr (BITSET_ALLOC_ERR, Some b2)
                | Some buf \<Rightarrow>
                    bind_f (bstr_loop 0 (unat n) s buf) (\<lambda>buf1.
                    Inr (BITSET_GOOD, Some (b2\<lparr>bits := Some buf1\<rparr>))))
      | _ \<Rightarrow> Inr (BITSET_NULL_ERR, bo))"

text \<open>
  \<^verbatim>\<open>bits_from_char\<close>: the static buffer of 8 cells is cleared, then the do-while loop
  writes \<^verbatim>\<open>bits[b--] = (c & 1)\<close> while \<^verbatim>\<open>(c >>= 1) > 0\<close>, with \<^verbatim>\<open>b\<close> an \<^verbatim>\<open>int\<close> that
  starts at 7.
\<close>

function bfc_loop :: "8 word \<Rightarrow> int \<Rightarrow> bool list \<Rightarrow> bool list result" where
  "bfc_loop c b cells =
     (if b < 0 \<or> int (length cells) \<le> b then Inl OutOfBounds
      else
        let cells1 = cells[nat b := (c AND 1 \<noteq> 0)];
            c1 = drop_bit 1 c
        in if c1 > 0 then bfc_loop c1 (b - 1) cells1 else Inr cells1)"
  by pat_completeness auto
termination
  by (relation "measure (\<lambda>(c, b, cells). nat (b + 1))") auto

definition bits_from_char :: "8 word \<Rightarrow> bool list result" where
  "bits_from_char c = bfc_loop c (int (unat CHAR_LEN) - 1) (replicate (unat CHAR_LEN) False)"

text \<open>
  The loop of \<^verbatim>\<open>bitset_init_str\<close>. The offset \<^verbatim>\<open>i * CHAR_LEN\<close> is a \<^verbatim>\<open>size_t\<close> product
  and wraps modulo \<open>2 ^ 64\<close>; the character is converted to \<^verbatim>\<open>unsigned char\<close>.
\<close>

function str_loop :: "nat \<Rightarrow> nat \<Rightarrow> string \<Rightarrow> bool list \<Rightarrow> bool list result" where
  "str_loop i n s buf =
     (if i < n \<and> c_str s i \<noteq> CHR 0x00 then
        bind_f (bits_from_char (of_char (c_str s i))) (\<lambda>bin.
        bind_f (memcpy_in buf (unat ((of_nat i :: size_t) * CHAR_LEN)) bin (unat CHAR_LEN)) (\<lambda>buf1.
        str_loop (Suc i) n s buf1))
      else Inr buf)"
  by pat_completeness auto
termination
  by (relation "measure (\<lambda>(i, n, s, buf). n - i)") auto

text \<open>\<^verbatim>\<open>bitset_init_str\<close>: \<^verbatim>\<open>b->len = n * CHAR_LEN\<close> is a \<^verbatim>\<open>size_t\<close> product too.\<close>

definition bitset_init_str ::
  "bool \<Rightarrow> bitset option \<Rightarrow> string option \<Rightarrow> size_t \<Rightarrow> (status \<times> bitset option) result" where
  "bitset_init_str ok bo so n =
     (case (bo, so) of
        (Some b, Some s) \<Rightarrow>
          if n = 0 then Inr (BITSET_NULL_ERR, bo)
          else
            let b1 = b\<lparr>len := n * CHAR_LEN\<rparr>;
                b2 = b1\<lparr>bits := calloc_bits ok (unat (len b1))\<rparr>
            in (case bits b2 of
                  None \<Rightarrow> Inr (BITSET_ALLOC_ERR, Some b2)
                | Some buf \<Rightarrow>
                    bind_f (str_loop 0 (unat n) s buf) (\<lambda>buf1.
                    Inr (BITSET_GOOD, Some (b2\<lparr>bits := Some buf1\<rparr>))))
      | _ \<Rightarrow> Inr (BITSET_NULL_ERR, bo))"

section \<open>Well-formed bitsets\<close>

text \<open>
  The data-model invariants of an initialized bitset: it has a buffer, the buffer has
  exactly \<^verbatim>\<open>len\<close> cells, and \<^verbatim>\<open>len\<close> is positive. \<open>wf_bitset\<close> is the part that also
  holds of a released bitset: a buffer, when there is one, has \<^verbatim>\<open>len\<close> cells.
\<close>

definition initialized :: "bitset \<Rightarrow> bool" where
  "initialized b = (case bits b of None \<Rightarrow> False | Some buf \<Rightarrow> length buf = unat (len b) \<and> len b \<noteq> 0)"

definition wf_bitset :: "bitset \<Rightarrow> bool" where
  "wf_bitset b = (case bits b of None \<Rightarrow> True | Some buf \<Rightarrow> length buf = unat (len b))"

text \<open>
  What the claims about the string constructors speak of. \<open>c_strlen\<close> is the position
  of the terminator of a C string (C's \<^verbatim>\<open>strlen\<close>): the number of characters before
  the first \<^verbatim>\<open>'\0'\<close>. \<open>msb_first\<close> is the 8-bit big-endian expansion of a byte as the
  specification words it: the most significant bit first.
\<close>

definition c_strlen :: "string \<Rightarrow> nat" where
  "c_strlen s = length (takeWhile (\<lambda>c. c \<noteq> CHR 0x00) s)"

definition msb_first :: "8 word \<Rightarrow> bool list" where
  "msb_first c = map (\<lambda>j. bit c (7 - j)) [0..<8]"

section \<open>Allocation failure in the rotations\<close>

text \<open>
  Claim C4. When the scratch allocation of \<^verbatim>\<open>bitset_lrot\<close> or \<^verbatim>\<open>bitset_rrot\<close> is
  reached (the bitset has a buffer, its length is not 0 and the effective amount
  \<open>n mod len\<close> is not 0) and fails, the call returns \<^verbatim>\<open>BITSET_ALLOC_ERR\<close> and the
  bitset is the one that was passed: same cells, same length.
\<close>

theorem rot_alloc_failure_unchanged:
  assumes "bits b \<noteq> None" and "len b \<noteq> 0" and "n mod len b \<noteq> 0"
  shows "bitset_lrot False (Some b) n = Inr (BITSET_ALLOC_ERR, Some b)
       \<and> bitset_rrot False (Some b) n = Inr (BITSET_ALLOC_ERR, Some b)"
  using assms by (auto simp: bitset_lrot_def bitset_rrot_def Let_def)

theorem rot_alloc_failure_unchanged_witness:
  "bits \<lparr>bits = Some [True, False, True], len = 3\<rparr> \<noteq> None
   \<and> len \<lparr>bits = Some [True, False, True], len = 3\<rparr> \<noteq> 0
   \<and> (4 :: size_t) mod len \<lparr>bits = Some [True, False, True], len = 3\<rparr> \<noteq> 0
   \<and> bitset_lrot False (Some \<lparr>bits = Some [True, False, True], len = 3\<rparr>) 4
       = Inr (BITSET_ALLOC_ERR, Some \<lparr>bits = Some [True, False, True], len = 3\<rparr>)
   \<and> bitset_rrot False (Some \<lparr>bits = Some [True, False, True], len = 3\<rparr>) 4
       = Inr (BITSET_ALLOC_ERR, Some \<lparr>bits = Some [True, False, True], len = 3\<rparr>)"
  using rot_alloc_failure_unchanged
    [of "\<lparr>bits = Some [True, False, True], len = 3\<rparr>" 4]
  by simp

section \<open>Size arithmetic and the results of shifts and rotations\<close>

lemma rot_amounts:
  fixes l n :: size_t
  assumes "l \<noteq> 0" and "n mod l \<noteq> 0"
  shows "unat (n mod l) = unat n mod unat l"
    and "unat (l - n mod l) = unat l - unat n mod unat l"
    and "0 < unat n mod unat l"
    and "unat n mod unat l < unat l"
proof -
  show m: "unat (n mod l) = unat n mod unat l" by (simp add: unat_mod)
  have lpos: "0 < unat l" using assms(1) by (simp add: unat_gt_0)
  show lt: "unat n mod unat l < unat l" using lpos by simp
  have "n mod l \<le> l" using lt m by (simp add: word_le_nat_alt)
  then show "unat (l - n mod l) = unat l - unat n mod unat l"
    by (simp add: unat_sub m)
  show "0 < unat n mod unat l" using assms(2) m by (metis unat_gt_0)
qed

lemma shift_amounts:
  fixes l n :: size_t
  assumes "\<not> l \<le> n"
  shows "unat (l - n) = unat l - unat n" and "unat n < unat l"
proof -
  show lt: "unat n < unat l" using assms by (simp add: word_le_nat_alt)
  have "n \<le> l" using lt by (simp add: word_le_nat_alt)
  then show "unat (l - n) = unat l - unat n" by (simp add: unat_sub)
qed

lemma lrot_result:
  assumes "bits b = Some buf" and "length buf = unat (len b)" and "len b \<noteq> 0"
    and "n mod len b \<noteq> 0"
  shows "bitset_lrot True (Some b) n =
     Inr (BITSET_GOOD, Some (b\<lparr>bits := Some (drop (unat n mod unat (len b)) buf @ take (unat n mod unat (len b)) buf)\<rparr>))"
  using assms rot_amounts [OF assms(3,4)]
  by (simp add: bitset_lrot_def Let_def bind_f_def memcpy_out_def memmove_bits_def memcpy_in_def)

lemma rrot_result:
  assumes "bits b = Some buf" and "length buf = unat (len b)" and "len b \<noteq> 0"
    and "n mod len b \<noteq> 0"
  shows "bitset_rrot True (Some b) n =
     Inr (BITSET_GOOD, Some (b\<lparr>bits := Some (drop (unat (len b) - unat n mod unat (len b)) buf @ take (unat (len b) - unat n mod unat (len b)) buf)\<rparr>))"
  using assms rot_amounts [OF assms(3,4)]
  by (simp add: bitset_rrot_def Let_def bind_f_def memcpy_out_def memmove_bits_def memcpy_in_def)

lemma lsh_result:
  assumes "bits b = Some buf" and "length buf = unat (len b)"
  shows "bitset_lsh (Some b) n =
     Inr (BITSET_GOOD, Some (b\<lparr>bits := Some
       (if n = 0 then buf
        else if len b \<le> n then replicate (unat (len b)) False
        else drop (unat n) buf @ replicate (unat n) False)\<rparr>))"
proof (cases "n = 0 \<or> len b \<le> n")
  case True
  then show ?thesis using assms
    by (auto simp: bitset_lsh_def bind_f_def memset0_def)
next
  case False
  then have "\<not> len b \<le> n" by simp
  from shift_amounts [OF this] False assms show ?thesis
    by (simp add: bitset_lsh_def Let_def bind_f_def memset0_def memmove_bits_def)
qed

lemma rsh_result:
  assumes "bits b = Some buf" and "length buf = unat (len b)"
  shows "bitset_rsh (Some b) n =
     Inr (BITSET_GOOD, Some (b\<lparr>bits := Some
       (if n = 0 then buf
        else if len b \<le> n then replicate (unat (len b)) False
        else replicate (unat n) False @ take (unat (len b) - unat n) buf)\<rparr>))"
proof (cases "n = 0 \<or> len b \<le> n")
  case True
  then show ?thesis using assms
    by (auto simp: bitset_rsh_def bind_f_def memset0_def)
next
  case False
  then have "\<not> len b \<le> n" by simp
  from shift_amounts [OF this] False assms show ?thesis
    by (simp add: bitset_rsh_def Let_def bind_f_def memset0_def memmove_bits_def)
qed

section \<open>Rotation and shift claims\<close>

text \<open>
  Claim C1. For an initialized bitset (a buffer of \<^verbatim>\<open>len\<close> cells, \<^verbatim>\<open>len\<close> positive) and any
  amount \<open>n\<close>, with \<open>k = n mod len\<close>: when \<open>k = 0\<close>, \<^verbatim>\<open>bitset_lrot\<close> returns
  \<^verbatim>\<open>BITSET_GOOD\<close> and the bitset is unchanged, whether or not memory could be allocated;
  otherwise, when the scratch allocation succeeds, it returns \<^verbatim>\<open>BITSET_GOOD\<close> and the
  cells become \<open>drop k buf @ take k buf\<close>: the cells \<open>[0, k)\<close> are at the tail, the
  cells \<open>[k, len)\<close> are at \<open>[0, len - k)\<close>, the length is the same and the cells are a
  permutation of the original ones (the list rotated by \<open>n\<close>).
\<close>

theorem lrot_spec:
  assumes "bits b = Some buf" and "length buf = unat (len b)" and "len b \<noteq> 0"
    and "k = unat n mod unat (len b)"
  shows "(k = 0 \<longrightarrow> bitset_lrot ok (Some b) n = Inr (BITSET_GOOD, Some b))
       \<and> (k \<noteq> 0 \<longrightarrow> bitset_lrot True (Some b) n =
             Inr (BITSET_GOOD, Some (b\<lparr>bits := Some (drop k buf @ take k buf)\<rparr>)))
       \<and> (\<forall>i<k. (drop k buf @ take k buf) ! (unat (len b) - k + i) = buf ! i)
       \<and> (\<forall>i<unat (len b) - k. (drop k buf @ take k buf) ! i = buf ! (k + i))
       \<and> length (drop k buf @ take k buf) = unat (len b)
       \<and> mset (drop k buf @ take k buf) = mset buf
       \<and> drop k buf @ take k buf = rotate (unat n) buf"
proof -
  have km: "unat (n mod len b) = k" using assms(4) by (simp add: unat_mod)
  have klt: "k < unat (len b)" using assms(3,4) by (simp add: unat_gt_0)
  have zero: "k = 0 \<longleftrightarrow> n mod len b = 0" using km by (metis unat_eq_0)
  have a: "k = 0 \<longrightarrow> bitset_lrot ok (Some b) n = Inr (BITSET_GOOD, Some b)"
    using assms(1,3) zero by (simp add: bitset_lrot_def)
  have b: "k \<noteq> 0 \<longrightarrow> bitset_lrot True (Some b) n =
             Inr (BITSET_GOOD, Some (b\<lparr>bits := Some (drop k buf @ take k buf)\<rparr>))"
    using lrot_result [OF assms(1,2,3), of n] zero assms(4) by simp
  have c: "\<forall>i<k. (drop k buf @ take k buf) ! (unat (len b) - k + i) = buf ! i"
    using klt assms(2) by (auto simp: nth_append)
  have d: "\<forall>i<unat (len b) - k. (drop k buf @ take k buf) ! i = buf ! (k + i)"
    using klt assms(2) by (simp add: nth_append)
  have e: "length (drop k buf @ take k buf) = unat (len b)"
    using klt assms(2) by simp
  have "mset (drop k buf @ take k buf) = mset (take k buf @ drop k buf)"
    by (simp only: mset_append add.commute)
  then have f: "mset (drop k buf @ take k buf) = mset buf" by simp
  have g: "drop k buf @ take k buf = rotate (unat n) buf"
    using assms(2,4) by (simp add: rotate_drop_take)
  from a b c d e f g show ?thesis by blast
qed

theorem lrot_spec_witness:
  "bitset_lrot True (Some \<lparr>bits = Some [True, True, False, False, True], len = 5\<rparr>) 7
     = Inr (BITSET_GOOD, Some \<lparr>bits = Some [False, False, True, True, True], len = 5\<rparr>)
   \<and> bitset_lrot False (Some \<lparr>bits = Some [True, True, False, False, True], len = 5\<rparr>) 10
     = Inr (BITSET_GOOD, Some \<lparr>bits = Some [True, True, False, False, True], len = 5\<rparr>)"
proof -
  let ?b = "\<lparr>bits = Some [True, True, False, False, True], len = 5\<rparr>"
  have h: "bits ?b = Some [True, True, False, False, True]"
    "length [True, True, False, False, True] = unat (len ?b)" "len ?b \<noteq> 0"
    by simp_all
  have k1: "(2::nat) = unat (7 :: size_t) mod unat (len ?b)" by simp
  have k2: "(0::nat) = unat (10 :: size_t) mod unat (len ?b)" by simp
  from lrot_spec [OF h k1, of True] lrot_spec [OF h k2, of False]
  show ?thesis by simp
qed

text \<open>
  Claim C2. For a bitset with a buffer of \<^verbatim>\<open>len\<close> cells and any amount \<open>n\<close>, \<^verbatim>\<open>bitset_lsh\<close>
  and \<^verbatim>\<open>bitset_rsh\<close> return \<^verbatim>\<open>BITSET_GOOD\<close>. With \<open>n = 0\<close> the bitset is unchanged; with
  \<open>n \<ge> len\<close> every cell is false; otherwise \<^verbatim>\<open>bitset_lsh\<close> moves the cells \<open>[n, len)\<close> down
  to \<open>[0, len - n)\<close> and clears the upper \<open>n\<close> cells, and \<^verbatim>\<open>bitset_rsh\<close> moves the cells
  \<open>[0, len - n)\<close> up to \<open>[n, len)\<close> and clears the lower \<open>n\<close> cells.
\<close>

theorem shift_spec:
  assumes "bits b = Some buf" and "length buf = unat (len b)"
  shows "(n = 0 \<longrightarrow> bitset_lsh (Some b) n = Inr (BITSET_GOOD, Some b)
                 \<and> bitset_rsh (Some b) n = Inr (BITSET_GOOD, Some b))
       \<and> (n \<noteq> 0 \<and> len b \<le> n \<longrightarrow>
             bitset_lsh (Some b) n =
               Inr (BITSET_GOOD, Some (b\<lparr>bits := Some (replicate (unat (len b)) False)\<rparr>))
           \<and> bitset_rsh (Some b) n =
               Inr (BITSET_GOOD, Some (b\<lparr>bits := Some (replicate (unat (len b)) False)\<rparr>)))
       \<and> (n \<noteq> 0 \<and> n < len b \<longrightarrow>
             bitset_lsh (Some b) n =
               Inr (BITSET_GOOD, Some (b\<lparr>bits := Some (drop (unat n) buf @ replicate (unat n) False)\<rparr>))
           \<and> bitset_rsh (Some b) n =
               Inr (BITSET_GOOD, Some (b\<lparr>bits := Some
                 (replicate (unat n) False @ take (unat (len b) - unat n) buf)\<rparr>)))"
proof -
  have same: "b\<lparr>bits := Some buf\<rparr> = b" using assms(1) by simp
  show ?thesis
    using lsh_result [OF assms, of n] rsh_result [OF assms, of n] same
    by (auto simp: not_le)
qed

theorem shift_spec_witness:
  "bitset_lsh (Some \<lparr>bits = Some [True, False, True, True], len = 4\<rparr>) 1
     = Inr (BITSET_GOOD, Some \<lparr>bits = Some [False, True, True, False], len = 4\<rparr>)
   \<and> bitset_rsh (Some \<lparr>bits = Some [True, False, True, True], len = 4\<rparr>) 1
     = Inr (BITSET_GOOD, Some \<lparr>bits = Some [False, True, False, True], len = 4\<rparr>)
   \<and> bitset_lsh (Some \<lparr>bits = Some [True, False, True, True], len = 4\<rparr>) 0
     = Inr (BITSET_GOOD, Some \<lparr>bits = Some [True, False, True, True], len = 4\<rparr>)
   \<and> bitset_lsh (Some \<lparr>bits = Some [True, False, True, True], len = 4\<rparr>) 9
     = Inr (BITSET_GOOD, Some \<lparr>bits = Some [False, False, False, False], len = 4\<rparr>)"
proof -
  let ?b = "\<lparr>bits = Some [True, False, True, True], len = 4\<rparr>"
  have h: "bits ?b = Some [True, False, True, True]"
    "length [True, False, True, True] = unat (len ?b)"
    by simp_all
  have r4: "replicate 4 False = [False, False, False, False]"
    by (simp add: numeral_eq_Suc)
  from shift_spec [OF h, of 1] shift_spec [OF h, of 0] shift_spec [OF h, of 9] r4
  show ?thesis by simp
qed

text \<open>
  Claim C3. For an initialized bitset and any amount \<open>k\<close>, \<^verbatim>\<open>bitset_lrot\<close> by \<open>k\<close> followed
  by \<^verbatim>\<open>bitset_rrot\<close> by \<open>k\<close> gives back the original bitset: with successful allocations
  both calls return \<^verbatim>\<open>BITSET_GOOD\<close> and the second leaves the original, and whenever
  both calls return \<^verbatim>\<open>BITSET_GOOD\<close> the final bitset is the original one.
\<close>

theorem lrot_rrot_restores:
  assumes "bits b = Some buf" and "length buf = unat (len b)" and "len b \<noteq> 0"
  shows "(\<exists>b'. bitset_lrot True (Some b) k = Inr (BITSET_GOOD, Some b')
              \<and> bitset_rrot True (Some b') k = Inr (BITSET_GOOD, Some b))
       \<and> (\<forall>ok1 ok2 b' b''.
             bitset_lrot ok1 (Some b) k = Inr (BITSET_GOOD, Some b') \<longrightarrow>
             bitset_rrot ok2 (Some b') k = Inr (BITSET_GOOD, Some b'') \<longrightarrow> b'' = b)"
proof (cases "k mod len b = 0")
  case True
  then show ?thesis using assms(1,3)
    by (auto simp: bitset_lrot_def bitset_rrot_def)
next
  case False
  let ?m = "unat k mod unat (len b)"
  let ?L = "drop ?m buf @ take ?m buf"
  let ?b' = "b\<lparr>bits := Some ?L\<rparr>"
  note am = rot_amounts [OF assms(3) False]
  have l: "bitset_lrot True (Some b) k = Inr (BITSET_GOOD, Some ?b')"
    by (rule lrot_result [OF assms False])
  have h': "bits ?b' = Some ?L" "length ?L = unat (len ?b')" "len ?b' \<noteq> 0" "k mod len ?b' \<noteq> 0"
    using assms False am by simp_all
  have rt: "drop (unat (len b) - ?m) ?L @ take (unat (len b) - ?m) ?L = buf"
    using am assms(2) by simp
  have r: "bitset_rrot True (Some ?b') k = Inr (BITSET_GOOD, Some b)"
    using rrot_result [OF h'] rt assms(1) by simp
  have okl: "bitset_lrot ok1 (Some b) k = Inr (BITSET_GOOD, Some b') \<Longrightarrow> ok1 \<and> b' = ?b'" for ok1 b'
    using l False assms(1,3) by (cases ok1) (auto simp: bitset_lrot_def Let_def)
  have okr: "bitset_rrot ok2 (Some ?b') k = Inr (BITSET_GOOD, Some b'') \<Longrightarrow> b'' = b" for ok2 b''
    using r False assms(1,3) by (cases ok2) (auto simp: bitset_rrot_def Let_def)
  show ?thesis using l r okl okr by blast
qed

theorem lrot_rrot_restores_witness:
  "(\<exists>b'. bitset_lrot True (Some \<lparr>bits = Some [True, True, False], len = 3\<rparr>) 4 = Inr (BITSET_GOOD, Some b')
        \<and> bitset_rrot True (Some b') 4 = Inr (BITSET_GOOD, Some \<lparr>bits = Some [True, True, False], len = 3\<rparr>))"
proof -
  let ?b = "\<lparr>bits = Some [True, True, False], len = 3\<rparr>"
  have h: "bits ?b = Some [True, True, False]"
    "length [True, True, False] = unat (len ?b)" "len ?b \<noteq> 0"
    by simp_all
  from lrot_rrot_restores [OF h, of 4] show ?thesis by blast
qed

section \<open>The elementwise loops stay inside well-formed buffers\<close>

lemma binop_loop_length:
  "binop_loop f i n l r = Inr l' \<Longrightarrow> length l' = length l"
proof (induction f i n l r rule: binop_loop.induct)
  case (1 f i n l r)
  show ?case
  proof (cases "i < n")
    case True
    with "1.prems" have inb: "i < length l \<and> i < length r"
      by (simp split: if_splits)
    with True "1.prems" have "binop_loop f (Suc i) n (l[i := f (l ! i) (r ! i)]) r = Inr l'"
      by simp
    from "1.IH" [OF True inb this] show ?thesis by simp
  next
    case False
    with "1.prems" show ?thesis by simp
  qed
qed

lemma binop_loop_total:
  "n \<le> length l \<Longrightarrow> n \<le> length r \<Longrightarrow> \<exists>l'. binop_loop f i n l r = Inr l'"
proof (induction f i n l r rule: binop_loop.induct)
  case (1 f i n l r)
  show ?case
  proof (cases "i < n")
    case True
    with "1.prems" have inb: "i < length l \<and> i < length r" by simp
    have "\<exists>l'. binop_loop f (Suc i) n (l[i := f (l ! i) (r ! i)]) r = Inr l'"
      using "1.IH" [OF True inb] "1.prems" by simp
    with True inb show ?thesis by simp
  next
    case False
    then show ?thesis by simp
  qed
qed

lemma unop_loop_length:
  "unop_loop f i n l = Inr l' \<Longrightarrow> length l' = length l"
proof (induction f i n l rule: unop_loop.induct)
  case (1 f i n l)
  show ?case
  proof (cases "i < n")
    case True
    with "1.prems" have inb: "i < length l"
      by (simp split: if_splits)
    with True "1.prems" have "unop_loop f (Suc i) n (l[i := f (l ! i)]) = Inr l'"
      by simp
    from "1.IH" [OF True inb this] show ?thesis by simp
  next
    case False
    with "1.prems" show ?thesis by simp
  qed
qed

lemma unop_loop_total:
  "n \<le> length l \<Longrightarrow> \<exists>l'. unop_loop f i n l = Inr l'"
proof (induction f i n l rule: unop_loop.induct)
  case (1 f i n l)
  show ?case
  proof (cases "i < n")
    case True
    with "1.prems" have inb: "i < length l" by simp
    have "\<exists>l'. unop_loop f (Suc i) n (l[i := f (l ! i)]) = Inr l'"
      using "1.IH" [OF True inb] "1.prems" by simp
    with True inb show ?thesis by simp
  next
    case False
    then show ?thesis by simp
  qed
qed

lemma binop_len:
  assumes "wf_bitset lhs" and "wf_bitset rhs"
  shows "\<exists>st lhs'. bitset_binop f (Some lhs) (Some rhs) = Inr (st, Some lhs', Some rhs) \<and> len lhs' = len lhs"
proof (cases "bits lhs")
  case None
  then show ?thesis by (simp add: bitset_binop_def)
next
  case (Some l)
  note L = this
  show ?thesis
  proof (cases "bits rhs")
    case None
    then show ?thesis using L by (simp add: bitset_binop_def)
  next
    case (Some r)
    show ?thesis
    proof (cases "len lhs = len rhs")
      case False
      then show ?thesis using L Some by (simp add: bitset_binop_def)
    next
      case True
      have "unat (len lhs) \<le> length l" "unat (len lhs) \<le> length r"
        using assms L Some True by (simp_all add: wf_bitset_def)
      from binop_loop_total [OF this, of f 0] obtain l'
        where "binop_loop f 0 (unat (len lhs)) l r = Inr l'" by blast
      then show ?thesis using L Some True by (simp add: bitset_binop_def bind_f_def)
    qed
  qed
qed

lemma not_len:
  assumes "wf_bitset b"
  shows "\<exists>st b'. bitset_not (Some b) = Inr (st, Some b') \<and> len b' = len b"
proof (cases "bits b")
  case None
  then show ?thesis by (simp add: bitset_not_def)
next
  case (Some l)
  have "unat (len b) \<le> length l" using assms Some by (simp add: wf_bitset_def)
  from unop_loop_total [OF this, of "\<lambda>x. if x then False else True" 0] obtain l'
    where "unop_loop (\<lambda>x. if x then False else True) 0 (unat (len b)) l = Inr l'" by blast
  then show ?thesis using Some by (simp add: bitset_not_def bind_f_def)
qed

lemma reset_len:
  assumes "wf_bitset b"
  shows "\<exists>b'. bitset_reset (Some b) = Inr (Some b') \<and> len b' = len b"
proof (cases "bits b")
  case None
  then show ?thesis by (simp add: bitset_reset_def)
next
  case (Some l)
  have "unat (len b) \<le> length l" using assms Some by (simp add: wf_bitset_def)
  from unop_loop_total [OF this, of "\<lambda>x. False" 0] obtain l'
    where "unop_loop (\<lambda>x. False) 0 (unat (len b)) l = Inr l'" by blast
  then show ?thesis using Some by (simp add: bitset_reset_def bind_f_def)
qed

lemma shift_len:
  assumes "wf_bitset b"
  shows "(\<exists>st b'. bitset_lsh (Some b) n = Inr (st, Some b') \<and> len b' = len b)
       \<and> (\<exists>st b'. bitset_rsh (Some b) n = Inr (st, Some b') \<and> len b' = len b)"
proof (cases "bits b")
  case None
  then show ?thesis by (simp add: bitset_lsh_def bitset_rsh_def)
next
  case (Some l)
  have "length l = unat (len b)" using assms Some by (simp add: wf_bitset_def)
  from lsh_result [OF Some this, of n] rsh_result [OF Some this, of n]
  show ?thesis by simp
qed

lemma rot_len:
  assumes "initialized b"
  shows "(\<exists>st b'. bitset_lrot ok (Some b) n = Inr (st, Some b') \<and> len b' = len b)
       \<and> (\<exists>st b'. bitset_rrot ok (Some b) n = Inr (st, Some b') \<and> len b' = len b)"
proof -
  from assms obtain l where l: "bits b = Some l" "length l = unat (len b)" "len b \<noteq> 0"
    by (auto simp: initialized_def split: option.splits)
  show ?thesis
  proof (cases "n mod len b = 0")
    case True
    then show ?thesis using l by (simp add: bitset_lrot_def bitset_rrot_def)
  next
    case False
    show ?thesis
    proof (cases ok)
      case True
      with lrot_result [OF l False] rrot_result [OF l False] show ?thesis by simp
    next
      case no: False
      then show ?thesis using l False by (simp add: bitset_lrot_def bitset_rrot_def Let_def)
    qed
  qed
qed

section \<open>Length preservation, length mismatch and failed construction\<close>

lemma initialized_wf: "initialized b \<Longrightarrow> wf_bitset b"
  by (auto simp: initialized_def wf_bitset_def split: option.splits)

lemma binop_len_handle:
  assumes "wf_bitset lhs" and "\<forall>rhs. ro = Some rhs \<longrightarrow> wf_bitset rhs"
  shows "\<exists>st lhs'. bitset_binop f (Some lhs) ro = Inr (st, Some lhs', ro) \<and> len lhs' = len lhs"
proof (cases ro)
  case None
  then show ?thesis by (simp add: bitset_binop_def)
next
  case (Some rhs)
  with assms(2) have "wf_bitset rhs" by simp
  from binop_len [OF assms(1) this, of f] Some show ?thesis by simp
qed

text \<open>
  Claim C9. For an initialized bitset, each of the in-place operations \<^verbatim>\<open>bitset_and\<close>,
  \<^verbatim>\<open>bitset_or\<close>, \<^verbatim>\<open>bitset_xor\<close>, \<^verbatim>\<open>bitset_not\<close>, \<^verbatim>\<open>bitset_lsh\<close>, \<^verbatim>\<open>bitset_rsh\<close>,
  \<^verbatim>\<open>bitset_lrot\<close>, \<^verbatim>\<open>bitset_rrot\<close> and \<^verbatim>\<open>bitset_reset\<close> returns, whatever status it
  reports, with the \<^verbatim>\<open>len\<close> field of the bitset unchanged. The right operand of a binary
  operator is any handle: \<^verbatim>\<open>NULL\<close>, a released bitset, or a bitset whose buffer has
  \<^verbatim>\<open>len\<close> cells, of the same length or not; the allocation of a rotation may fail.
\<close>

theorem mutators_keep_len:
  assumes "initialized b" and "\<forall>rhs. ro = Some rhs \<longrightarrow> wf_bitset rhs"
  shows "(\<exists>st b'. bitset_and (Some b) ro = Inr (st, Some b', ro) \<and> len b' = len b)
       \<and> (\<exists>st b'. bitset_or (Some b) ro = Inr (st, Some b', ro) \<and> len b' = len b)
       \<and> (\<exists>st b'. bitset_xor (Some b) ro = Inr (st, Some b', ro) \<and> len b' = len b)
       \<and> (\<exists>st b'. bitset_not (Some b) = Inr (st, Some b') \<and> len b' = len b)
       \<and> (\<exists>st b'. bitset_lsh (Some b) n = Inr (st, Some b') \<and> len b' = len b)
       \<and> (\<exists>st b'. bitset_rsh (Some b) n = Inr (st, Some b') \<and> len b' = len b)
       \<and> (\<exists>st b'. bitset_lrot ok (Some b) n = Inr (st, Some b') \<and> len b' = len b)
       \<and> (\<exists>st b'. bitset_rrot ok (Some b) n = Inr (st, Some b') \<and> len b' = len b)
       \<and> (\<exists>b'. bitset_reset (Some b) = Inr (Some b') \<and> len b' = len b)"
proof -
  note wf = initialized_wf [OF assms(1)]
  have a: "\<exists>st b'. bitset_and (Some b) ro = Inr (st, Some b', ro) \<and> len b' = len b"
    unfolding bitset_and_def by (rule binop_len_handle [OF wf assms(2)])
  have o: "\<exists>st b'. bitset_or (Some b) ro = Inr (st, Some b', ro) \<and> len b' = len b"
    unfolding bitset_or_def by (rule binop_len_handle [OF wf assms(2)])
  have x: "\<exists>st b'. bitset_xor (Some b) ro = Inr (st, Some b', ro) \<and> len b' = len b"
    unfolding bitset_xor_def by (rule binop_len_handle [OF wf assms(2)])
  from a o x not_len [OF wf] shift_len [OF wf, of n] rot_len [OF assms(1), of ok n]
    reset_len [OF wf]
  show ?thesis by blast
qed

theorem mutators_keep_len_witness:
  "(\<exists>st b'. bitset_and (Some \<lparr>bits = Some [True, False], len = 2\<rparr>) (Some \<lparr>bits = Some [True], len = 1\<rparr>)
        = Inr (st, Some b', Some \<lparr>bits = Some [True], len = 1\<rparr>) \<and> len b' = 2)
   \<and> (\<exists>st b'. bitset_lrot False (Some \<lparr>bits = Some [True, False], len = 2\<rparr>) 1 = Inr (st, Some b') \<and> len b' = 2)
   \<and> (\<exists>b'. bitset_reset (Some \<lparr>bits = Some [True, False], len = 2\<rparr>) = Inr (Some b') \<and> len b' = 2)"
proof -
  have i: "initialized \<lparr>bits = Some [True, False], len = 2\<rparr>"
    by (simp add: initialized_def)
  have w: "\<forall>rhs. Some \<lparr>bits = Some [True], len = 1\<rparr> = Some rhs \<longrightarrow> wf_bitset rhs"
    by (simp add: wf_bitset_def)
  from mutators_keep_len [OF i w, of 1 False] show ?thesis by simp
qed

text \<open>
  Claim C5. For two bitsets that both have a buffer and whose \<^verbatim>\<open>len\<close> fields differ,
  \<^verbatim>\<open>bitset_and\<close>, \<^verbatim>\<open>bitset_or\<close> and \<^verbatim>\<open>bitset_xor\<close> return \<^verbatim>\<open>BITSET_LENGTH_ERR\<close> and
  leave both operands as they were, cells and lengths.
\<close>

theorem binop_length_mismatch:
  assumes "bits lhs \<noteq> None" and "bits rhs \<noteq> None" and "len lhs \<noteq> len rhs"
  shows "bitset_and (Some lhs) (Some rhs) = Inr (BITSET_LENGTH_ERR, Some lhs, Some rhs)
       \<and> bitset_or (Some lhs) (Some rhs) = Inr (BITSET_LENGTH_ERR, Some lhs, Some rhs)
       \<and> bitset_xor (Some lhs) (Some rhs) = Inr (BITSET_LENGTH_ERR, Some lhs, Some rhs)"
  using assms
  by (auto simp: bitset_and_def bitset_or_def bitset_xor_def bitset_binop_def)

theorem binop_length_mismatch_witness:
  "bitset_and (Some \<lparr>bits = Some [True, False], len = 2\<rparr>) (Some \<lparr>bits = Some [True, True, True], len = 3\<rparr>)
     = Inr (BITSET_LENGTH_ERR, Some \<lparr>bits = Some [True, False], len = 2\<rparr>, Some \<lparr>bits = Some [True, True, True], len = 3\<rparr>)
   \<and> bitset_or (Some \<lparr>bits = Some [True, False], len = 2\<rparr>) (Some \<lparr>bits = Some [True, True, True], len = 3\<rparr>)
     = Inr (BITSET_LENGTH_ERR, Some \<lparr>bits = Some [True, False], len = 2\<rparr>, Some \<lparr>bits = Some [True, True, True], len = 3\<rparr>)
   \<and> bitset_xor (Some \<lparr>bits = Some [True, False], len = 2\<rparr>) (Some \<lparr>bits = Some [True, True, True], len = 3\<rparr>)
     = Inr (BITSET_LENGTH_ERR, Some \<lparr>bits = Some [True, False], len = 2\<rparr>, Some \<lparr>bits = Some [True, True, True], len = 3\<rparr>)"
  using binop_length_mismatch
    [of "\<lparr>bits = Some [True, False], len = 2\<rparr>" "\<lparr>bits = Some [True, True, True], len = 3\<rparr>"]
  by simp

text \<open>
  Claim C10. For a non-null handle (and string) and \<open>n \<noteq> 0\<close>, when the allocation fails
  \<^verbatim>\<open>bitset_init\<close>, \<^verbatim>\<open>bitset_init_bstr\<close> and \<^verbatim>\<open>bitset_init_str\<close> return
  \<^verbatim>\<open>BITSET_ALLOC_ERR\<close> and leave the handle with a null buffer and with \<^verbatim>\<open>len\<close>
  overwritten: by \<open>n\<close>, or for \<^verbatim>\<open>bitset_init_str\<close> by the \<^verbatim>\<open>size_t\<close> product
  \<^verbatim>\<open>n * CHAR_LEN\<close>, which is eight times \<open>n\<close> whenever \<open>n < 2 ^ 61\<close>. Nothing of the
  bitset that the handle held before the call remains.
\<close>

theorem init_alloc_failure_overwrites:
  assumes "n \<noteq> 0"
  shows "bitset_init False (Some b) n = Inr (BITSET_ALLOC_ERR, Some \<lparr>bits = None, len = n\<rparr>)
       \<and> bitset_init_bstr False (Some b) (Some s) n
           = Inr (BITSET_ALLOC_ERR, Some \<lparr>bits = None, len = n\<rparr>)
       \<and> bitset_init_str False (Some b) (Some s) n
           = Inr (BITSET_ALLOC_ERR, Some \<lparr>bits = None, len = n * CHAR_LEN\<rparr>)
       \<and> (unat n < 2 ^ 61 \<longrightarrow> unat (n * CHAR_LEN) = unat n * 8)"
proof -
  have "unat n < 2 ^ 61 \<longrightarrow> unat (n * CHAR_LEN) = unat n * 8"
    by (auto simp: CHAR_LEN_def unat_word_ariths)
  then show ?thesis using assms
    by (simp add: bitset_init_def bitset_init_bstr_def bitset_init_str_def calloc_bits_def Let_def)
qed

theorem init_alloc_failure_overwrites_witness:
  "bitset_init False (Some \<lparr>bits = Some [True], len = 1\<rparr>) 3
     = Inr (BITSET_ALLOC_ERR, Some \<lparr>bits = None, len = 3\<rparr>)
   \<and> bitset_init_bstr False (Some \<lparr>bits = Some [True], len = 1\<rparr>) (Some ''101'') 3
     = Inr (BITSET_ALLOC_ERR, Some \<lparr>bits = None, len = 3\<rparr>)
   \<and> bitset_init_str False (Some \<lparr>bits = Some [True], len = 1\<rparr>) (Some ''A'') 3
     = Inr (BITSET_ALLOC_ERR, Some \<lparr>bits = None, len = 24\<rparr>)
   \<and> unat ((3 :: size_t) * CHAR_LEN) = 24"
proof -
  have n: "(3 :: size_t) \<noteq> 0" by simp
  have m: "(3 :: size_t) * CHAR_LEN = 24" by (simp add: CHAR_LEN_def)
  from init_alloc_failure_overwrites [OF n, of "\<lparr>bits = Some [True], len = 1\<rparr>" "''101''"]
    init_alloc_failure_overwrites [OF n, of "\<lparr>bits = Some [True], len = 1\<rparr>" "''A''"] m
  show ?thesis by simp
qed

section \<open>Construction from a bit string\<close>

lemma c_str_nonnul:
  assumes "i \<le> c_strlen s"
  shows "(c_str s i \<noteq> CHR 0x00) = (i < c_strlen s)"
proof (cases "i < c_strlen s")
  case True
  let ?tw = "takeWhile (\<lambda>c. c \<noteq> CHR 0x00) s"
  from True have lt: "i < length ?tw" by (simp add: c_strlen_def)
  then have mem: "?tw ! i \<in> set ?tw" by (rule nth_mem)
  have same: "?tw ! i = s ! i" using lt by (rule takeWhile_nth)
  have "i < length s" using lt length_takeWhile_le [of "\<lambda>c. c \<noteq> CHR 0x00" s] by simp
  moreover have "s ! i \<noteq> CHR 0x00" using mem same by (auto dest: set_takeWhileD)
  ultimately have "s ! i \<noteq> CHR 0x00" and "i < length s" by simp_all
  with True show ?thesis by (simp add: c_str_def)
next
  case False
  with assms have eq: "i = length (takeWhile (\<lambda>c. c \<noteq> CHR 0x00) s)"
    by (simp add: c_strlen_def)
  have "c_str s i = CHR 0x00"
  proof (cases "i < length s")
    case True
    with eq nth_length_takeWhile [of "\<lambda>c. c \<noteq> CHR 0x00" s] show ?thesis
      by (simp add: c_str_def)
  next
    case False
    then show ?thesis by (simp add: c_str_def)
  qed
  with False show ?thesis by simp
qed

lemma c_strlen_le: "c_strlen s \<le> length s"
  by (simp add: c_strlen_def length_takeWhile_le)

lemma bstr_loop_result:
  assumes "i \<le> n" and "length buf = n" and "i \<le> c_strlen s"
  shows "bstr_loop i n s buf =
     Inr (take i buf @ map (\<lambda>j. s ! j = CHR ''1'') [i..<min n (c_strlen s)]
          @ drop (min n (c_strlen s)) buf)"
  using assms
proof (induction i n s buf rule: bstr_loop.induct)
  case (1 i n s buf)
  let ?m = "min n (c_strlen s)"
  show ?case
  proof (cases "i < n \<and> c_str s i \<noteq> CHR 0x00")
    case True
    then have iL: "i < c_strlen s" using c_str_nonnul [OF "1.prems"(3)] by simp
    then have ils: "i < length s" using c_strlen_le [of s] by simp
    have im: "i < ?m" using True iL by simp
    have ib: "i < length buf" using True "1.prems"(2) by simp
    let ?v = "c_str s i = CHR ''1''"
    have v: "?v = (s ! i = CHR ''1'')" using ils by (simp add: c_str_def)
    have step: "bstr_loop i n s buf = bstr_loop (Suc i) n s (buf[i := ?v])"
      using True ib by simp
    have ih: "bstr_loop (Suc i) n s (buf[i := ?v]) =
       Inr (take (Suc i) (buf[i := ?v]) @ map (\<lambda>j. s ! j = CHR ''1'') [Suc i..<?m]
            @ drop ?m (buf[i := ?v]))"
      using "1.IH" [OF True ib] True "1.prems"(2) iL by simp
    have t: "take (Suc i) (buf[i := ?v]) = take i buf @ [s ! i = CHR ''1'']"
      using ib v by (simp add: take_Suc_conv_app_nth)
    have d: "drop ?m (buf[i := ?v]) = drop ?m buf" using im by simp
    have u: "[i..<?m] = i # [Suc i..<?m]" using im by (simp add: upt_conv_Cons)
    show ?thesis unfolding step ih t d u by simp
  next
    case False
    then have stop: "bstr_loop i n s buf = Inr buf"
      by (subst bstr_loop.simps) (simp only: if_False)
    have "i = ?m"
    proof (cases "i < n")
      case True
      with False have "c_str s i = CHR 0x00" by simp
      then have "\<not> i < c_strlen s" using c_str_nonnul [OF "1.prems"(3)] by simp
      with "1.prems"(3) True show ?thesis by simp
    next
      case False
      with "1.prems"(1,3) show ?thesis by simp
    qed
    then have e: "?m = i" by simp
    show ?thesis unfolding stop e by simp
  qed
qed

lemma bstr_cells:
  "map f [0..<min n L] @ replicate (n - min n L) False = map (\<lambda>j. j < L \<and> f j) [0..<n]"
  by (rule nth_equalityI) (auto simp: nth_append)

text \<open>
  Claim C7. For a non-null handle, a non-null string and \<open>n \<noteq> 0\<close>, when the allocation
  succeeds \<^verbatim>\<open>bitset_init_bstr\<close> returns \<^verbatim>\<open>BITSET_GOOD\<close> with a bitset of \<open>n\<close> cells and
  \<^verbatim>\<open>len = n\<close>, in which cell \<open>i\<close> is true exactly when \<open>i\<close> is before the terminator
  of the string and character \<open>i\<close> is \<^verbatim>\<open>'1'\<close>; the cells at or beyond the terminator
  are false. Whatever the handle held before is overwritten.
\<close>

theorem init_bstr_spec:
  assumes "n \<noteq> 0"
  shows "bitset_init_bstr True (Some b) (Some s) n =
           Inr (BITSET_GOOD, Some \<lparr>bits = Some (map (\<lambda>i. i < c_strlen s \<and> s ! i = CHR ''1'') [0..<unat n]),
                                   len = n\<rparr>)"
proof -
  have "bstr_loop 0 (unat n) s (replicate (unat n) False) =
     Inr (map (\<lambda>j. s ! j = CHR ''1'') [0..<min (unat n) (c_strlen s)]
          @ replicate (unat n - min (unat n) (c_strlen s)) False)"
    using bstr_loop_result [of 0 "unat n" "replicate (unat n) False" s] by simp
  then show ?thesis using assms
    by (simp add: bitset_init_bstr_def calloc_bits_def Let_def bind_f_def bstr_cells)
qed

theorem init_bstr_spec_witness:
  "bitset_init_bstr True (Some \<lparr>bits = None, len = 0\<rparr>) (Some ''101'') 5 =
     Inr (BITSET_GOOD, Some \<lparr>bits = Some [True, False, True, False, False], len = 5\<rparr>)"
proof -
  have n: "(5 :: size_t) \<noteq> 0" by simp
  have c: "map (\<lambda>i. i < c_strlen ''101'' \<and> ''101'' ! i = CHR ''1'') [0..<unat (5 :: size_t)]
           = [True, False, True, False, False]"
    by (simp add: c_strlen_def upt_conv_Cons)
  from init_bstr_spec [OF n, of "\<lparr>bits = None, len = 0\<rparr>" "''101''"] c
  show ?thesis by simp
qed

section \<open>The expansion of a character\<close>

lemma bfc_step:
  assumes "b < length cells"
  shows "bfc_loop c (int b) cells =
     (if drop_bit 1 c \<noteq> 0 then bfc_loop (drop_bit 1 c) (int b - 1) (cells[b := bit c 0])
      else Inr (cells[b := bit c 0]))"
proof -
  have "(c AND 1 \<noteq> 0) = bit c 0" by (simp add: and_one_eq bit_0 odd_iff_mod_2_eq_one)
  moreover have "(drop_bit 1 c > 0) = (drop_bit 1 c \<noteq> 0)" by (simp add: word_neq_0_conv)
  ultimately show ?thesis using assms
    by (subst bfc_loop.simps) (simp add: Let_def)
qed

lemma bfc_loop_result:
  "length cells = 8 \<Longrightarrow> b < 8 \<Longrightarrow> unat c < 2 ^ Suc b \<Longrightarrow> (\<forall>j\<le>b. \<not> cells ! j) \<Longrightarrow>
   bfc_loop c (int b) cells = Inr (map (\<lambda>j. if j \<le> b then bit c (b - j) else cells ! j) [0..<8])"
proof (induction b arbitrary: c cells)
  case 0
  have "unat (drop_bit 1 c) = unat c div 2" by (simp add: drop_bit_eq_div unat_div)
  with "0.prems"(3) have "unat (drop_bit 1 c) = 0" by simp
  then have z: "drop_bit 1 c = 0" by (simp add: unat_eq_0)
  have "cells[0 := bit c 0] = map (\<lambda>j. if j \<le> 0 then bit c (0 - j) else cells ! j) [0..<8]"
    using "0.prems"(1) by (intro nth_equalityI) (auto simp: nth_list_update)
  then show ?case using bfc_step [of 0 cells c] z "0.prems"(1) by simp
next
  case (Suc b)
  let ?c1 = "drop_bit 1 c"
  let ?cells1 = "cells[Suc b := bit c 0]"
  have u: "unat ?c1 = unat c div 2" by (simp add: drop_bit_eq_div unat_div)
  with Suc.prems(3) have small: "unat ?c1 < 2 ^ Suc b" by simp
  have bitc: "bit ?c1 k = bit c (Suc k)" for k by (simp add: bit_drop_bit_eq)
  have inb: "Suc b < length cells" using Suc.prems(1,2) by simp
  show ?case
  proof (cases "?c1 = 0")
    case True
    have hi: "\<not> bit c (Suc k)" for k using bitc [of k] True by simp
    have "?cells1 = map (\<lambda>j. if j \<le> Suc b then bit c (Suc b - j) else cells ! j) [0..<8]"
    proof (intro nth_equalityI allI impI)
      show "length ?cells1 = length (map (\<lambda>j. if j \<le> Suc b then bit c (Suc b - j) else cells ! j) [0..<8])"
        using Suc.prems(1) by simp
    next
      fix j assume "j < length ?cells1"
      then have j8: "j < 8" using Suc.prems(1) by simp
      show "?cells1 ! j = map (\<lambda>j. if j \<le> Suc b then bit c (Suc b - j) else cells ! j) [0..<8] ! j"
      proof (cases "j \<le> b")
        case True
        then have "Suc b - j = Suc (b - j)" by simp
        with True j8 Suc.prems(4) hi [of "b - j"] show ?thesis by (simp add: nth_list_update)
      next
        case False
        with j8 inb show ?thesis by (auto simp: nth_list_update)
      qed
    qed
    then show ?thesis using bfc_step [OF inb, of c] True by simp
  next
    case False
    have pre: "length ?cells1 = 8" "b < 8" "\<forall>j\<le>b. \<not> ?cells1 ! j"
      using Suc.prems by (simp_all add: nth_list_update)
    have ih: "bfc_loop ?c1 (int b) ?cells1 =
        Inr (map (\<lambda>j. if j \<le> b then bit ?c1 (b - j) else ?cells1 ! j) [0..<8])"
      by (rule Suc.IH [OF pre(1,2) small pre(3)])
    have "map (\<lambda>j. if j \<le> b then bit ?c1 (b - j) else ?cells1 ! j) [0..<8]
        = map (\<lambda>j. if j \<le> Suc b then bit c (Suc b - j) else cells ! j) [0..<8]"
    proof (rule map_cong [OF refl])
      fix j assume "j \<in> set [0..<8]"
      then have j8: "j < 8" by simp
      show "(if j \<le> b then bit ?c1 (b - j) else ?cells1 ! j)
          = (if j \<le> Suc b then bit c (Suc b - j) else cells ! j)"
      proof (cases "j \<le> b")
        case True
        then have "Suc b - j = Suc (b - j)" by simp
        with True bitc [of "b - j"] show ?thesis by simp
      next
        case False
        with j8 inb show ?thesis by (auto simp: nth_list_update)
      qed
    qed
    with ih have "bfc_loop ?c1 (int b) ?cells1 =
        Inr (map (\<lambda>j. if j \<le> Suc b then bit c (Suc b - j) else cells ! j) [0..<8])"
      by simp
    then show ?thesis using bfc_step [OF inb, of c] False by simp
  qed
qed

lemma bits_from_char_result: "bits_from_char c = Inr (msb_first c)"
proof -
  have "unat c < 2 ^ 8" using unsigned_less [of c] by simp
  then have "bfc_loop c (int 7) (replicate 8 False)
     = Inr (map (\<lambda>j. if j \<le> 7 then bit c (7 - j) else replicate 8 False ! j) [0..<8])"
    by (intro bfc_loop_result) simp_all
  moreover have "map (\<lambda>j. if j \<le> 7 then bit c (7 - j) else replicate 8 False ! j) [0..<8]
     = msb_first c"
    unfolding msb_first_def by (rule map_cong [OF refl]) simp
  ultimately show ?thesis by (simp add: bits_from_char_def CHAR_LEN_def)
qed

lemma msb_first_length: "length (msb_first c) = 8"
  by (simp add: msb_first_def)

section \<open>Construction from a byte string\<close>

lemma str_offset:
  assumes "8 * i < 2 ^ 64"
  shows "unat ((of_nat i :: size_t) * CHAR_LEN) = 8 * i"
proof -
  have "i < 2 ^ 64" using assms by simp
  then have "unat (of_nat i :: size_t) = i" by (simp add: unat_of_nat)
  then show ?thesis using assms by (simp add: unat_word_ariths CHAR_LEN_def mult.commute)
qed

lemma str_loop_result:
  assumes "m = min n (c_strlen s)" and "i \<le> m" and "8 * m \<le> length buf"
    and "length buf < 2 ^ 64"
  shows "str_loop i n s buf =
     Inr (take (8 * i) buf @ concat (map (\<lambda>j. msb_first (of_char (s ! j))) [i..<m])
          @ drop (8 * m) buf)"
  using assms(2,3,4)
proof (induction "m - i" arbitrary: i buf)
  case 0
  then have e: "i = m" by simp
  have "\<not> (i < n \<and> c_str s i \<noteq> CHR 0x00)"
  proof (cases "i < n")
    case True
    with e assms(1) have "i = c_strlen s" by simp
    then show ?thesis using c_str_nonnul [of i s] by simp
  next
    case False
    then show ?thesis by simp
  qed
  then have "str_loop i n s buf = Inr buf"
    by (subst str_loop.simps) (simp only: if_False)
  then show ?case using e by simp
next
  case (Suc k)
  then have im: "i < m" by simp
  with assms(1) have "i < n" and iL: "i < c_strlen s" by simp_all
  then have go: "i < n \<and> c_str s i \<noteq> CHR 0x00" using c_str_nonnul [of i s] by simp
  have ch: "c_str s i = s ! i" using iL c_strlen_le [of s] by (simp add: c_str_def)
  let ?bin = "msb_first (of_char (s ! i))"
  let ?buf1 = "take (8 * i) buf @ ?bin @ drop (8 * i + 8) buf"
  have room: "8 * i + 8 \<le> length buf" using im Suc.prems(2) by simp
  then have off: "unat ((of_nat i :: size_t) * CHAR_LEN) = 8 * i"
    using Suc.prems(3) by (intro str_offset) simp
  have cp: "memcpy_in buf (8 * i) ?bin 8 = Inr ?buf1"
    using room by (simp add: memcpy_in_def msb_first_length)
  have step: "str_loop i n s buf = str_loop (Suc i) n s ?buf1"
    using go ch off cp
    by (subst str_loop.simps) (simp add: bind_f_def bits_from_char_result CHAR_LEN_def)
  have len1: "length ?buf1 = length buf" using room by (simp add: msb_first_length)
  have ih: "str_loop (Suc i) n s ?buf1 =
     Inr (take (8 * Suc i) ?buf1 @ concat (map (\<lambda>j. msb_first (of_char (s ! j))) [Suc i..<m])
          @ drop (8 * m) ?buf1)"
    using Suc.hyps(2) im Suc.prems(2,3) len1 by (intro Suc.hyps(1)) simp_all
  have t: "take (8 * Suc i) ?buf1 = take (8 * i) buf @ ?bin"
    using room by (simp add: msb_first_length)
  have "8 * m = (8 * i + 8) + (8 * m - (8 * i + 8))" using im by simp
  then have d: "drop (8 * m) ?buf1 = drop (8 * m) buf"
    using room by (simp add: msb_first_length)
  have u: "[i..<m] = i # [Suc i..<m]" using im by (simp add: upt_conv_Cons)
  show ?case unfolding step ih t d u by simp
qed

lemma init_str_result:
  assumes "n \<noteq> 0" and "8 * min (unat n) (c_strlen s) \<le> unat (n * CHAR_LEN)"
  shows "bitset_init_str True (Some b) (Some s) n =
     Inr (BITSET_GOOD, Some \<lparr>bits = Some
       (concat (map (\<lambda>j. msb_first (of_char (s ! j))) [0..<min (unat n) (c_strlen s)])
        @ replicate (unat (n * CHAR_LEN) - 8 * min (unat n) (c_strlen s)) False),
       len = n * CHAR_LEN\<rparr>)"
proof -
  let ?m = "min (unat n) (c_strlen s)"
  let ?buf = "replicate (unat (n * CHAR_LEN)) False"
  have "length ?buf < 2 ^ 64" using unsigned_less [of "n * CHAR_LEN"] by simp
  with assms(2) have loop: "str_loop 0 (unat n) s ?buf =
     Inr (take (8 * 0) ?buf @ concat (map (\<lambda>j. msb_first (of_char (s ! j))) [0..<?m])
          @ drop (8 * ?m) ?buf)"
    by (intro str_loop_result) simp_all
  show ?thesis using assms(1)
    by (simp add: bitset_init_str_def calloc_bits_def Let_def bind_f_def loop del: str_loop.simps)
qed

lemma concat_replicate_blocks:
  "concat (map (\<lambda>_. replicate k x) xs) = replicate (k * length xs) x"
  by (induction xs) (simp_all add: replicate_add)

lemma str_cells:
  "concat (map f [0..<min n L]) @ replicate (8 * n - 8 * min n L) False
     = concat (map (\<lambda>i. if i < L then f i else replicate 8 False) [0..<n])"
proof -
  let ?m = "min n L"
  have split: "[0..<n] = [0..<?m] @ [?m..<n]"
    using upt_add_eq_append [of 0 ?m "n - ?m"] by simp
  have a: "map (\<lambda>i. if i < L then f i else replicate 8 False) [0..<?m] = map f [0..<?m]"
    by (rule map_cong [OF refl]) simp
  have b: "map (\<lambda>i. if i < L then f i else replicate 8 False) [?m..<n]
         = map (\<lambda>_. replicate 8 False) [?m..<n]"
    by (rule map_cong [OF refl]) auto
  have c: "concat (map (\<lambda>_. replicate 8 False) [?m..<n]) = replicate (8 * n - 8 * ?m) False"
    by (simp add: concat_replicate_blocks diff_mult_distrib2)
  have "concat (map (\<lambda>i. if i < L then f i else replicate 8 False) [0..<n])
      = concat (map (\<lambda>i. if i < L then f i else replicate 8 False) ([0..<?m] @ [?m..<n]))"
    using split by simp
  also have "\<dots> = concat (map f [0..<?m]) @ replicate (8 * n - 8 * ?m) False"
    unfolding map_append concat_append a b c ..
  finally show ?thesis ..
qed

lemma block_slice:
  assumes "\<forall>x\<in>set xs. length (f x) = k" and "i < length xs"
  shows "take k (drop (k * i) (concat (map f xs))) = f (xs ! i)"
  using assms
proof (induction xs arbitrary: i)
  case Nil
  then show ?case by simp
next
  case (Cons x xs)
  show ?case
  proof (cases i)
    case 0
    with Cons.prems show ?thesis by simp
  next
    case (Suc j)
    with Cons.prems have "take k (drop (k * j) (concat (map f xs))) = f (xs ! j)"
      by (intro Cons.IH) simp_all
    with Suc Cons.prems(1) show ?thesis by simp
  qed
qed

lemma block_length:
  "\<forall>x\<in>set xs. length (f x) = k \<Longrightarrow> length (concat (map f xs)) = k * length xs"
  by (induction xs) simp_all

text \<open>
  Where the product \<^verbatim>\<open>n * CHAR_LEN\<close> does not wrap, \<^verbatim>\<open>bitset_init_str\<close> does what is
  asked of it. For a non-null handle, a non-null string and \<open>0 < n < 2 ^ 61\<close>, when the
  allocation succeeds it returns \<^verbatim>\<open>BITSET_GOOD\<close> with a bitset of exactly \<open>8 * n\<close> cells
  and \<^verbatim>\<open>len = 8 * n\<close>: the slice \<open>[8 * i, 8 * i + 8)\<close> holds character \<open>i\<close> most
  significant bit first when \<open>i\<close> is before the terminator of the string, and is all
  false at and after the terminator. The character \<^verbatim>\<open>'A'\<close> over length 1 gives the cells
  0, 1, 0, 0, 0, 0, 0, 1.
\<close>

theorem init_str_spec:
  assumes "n \<noteq> 0" and "unat n < 2 ^ 61"
    and "cells = concat (map (\<lambda>i. if i < c_strlen s then msb_first (of_char (s ! i))
                                    else replicate 8 False) [0..<unat n])"
  shows "bitset_init_str True (Some b) (Some s) n =
           Inr (BITSET_GOOD, Some \<lparr>bits = Some cells, len = n * CHAR_LEN\<rparr>)
       \<and> unat (n * CHAR_LEN) = unat n * 8
       \<and> length cells = unat n * 8
       \<and> (\<forall>i<unat n. take 8 (drop (8 * i) cells) =
             (if i < c_strlen s then msb_first (of_char (s ! i)) else replicate 8 False))"
proof -
  let ?f = "\<lambda>i. if i < c_strlen s then msb_first (of_char (s ! i)) else replicate 8 False"
  have sz: "unat (n * CHAR_LEN) = unat n * 8"
    using assms(2) by (simp add: CHAR_LEN_def unat_word_ariths)
  then have fits: "8 * min (unat n) (c_strlen s) \<le> unat (n * CHAR_LEN)" by simp
  have eq: "concat (map (\<lambda>j. msb_first (of_char (s ! j))) [0..<min (unat n) (c_strlen s)])
        @ replicate (unat (n * CHAR_LEN) - 8 * min (unat n) (c_strlen s)) False = cells"
    unfolding assms(3) sz using str_cells [of "\<lambda>j. msb_first (of_char (s ! j))" "unat n" "c_strlen s"]
    by (simp add: mult.commute)
  have r: "bitset_init_str True (Some b) (Some s) n =
           Inr (BITSET_GOOD, Some \<lparr>bits = Some cells, len = n * CHAR_LEN\<rparr>)"
    using init_str_result [OF assms(1) fits, of b] eq by simp
  have blocks: "\<forall>x\<in>set [0..<unat n]. length (?f x) = 8"
    by (simp add: msb_first_length)
  have l: "length cells = unat n * 8"
    unfolding assms(3) using block_length [OF blocks] by simp
  have sl: "\<forall>i<unat n. take 8 (drop (8 * i) cells) = ?f i"
  proof (intro allI impI)
    fix i assume "i < unat n"
    then have "i < length [0..<unat n]" by simp
    from block_slice [OF blocks this] \<open>i < unat n\<close> show "take 8 (drop (8 * i) cells) = ?f i"
      unfolding assms(3) by simp
  qed
  from r sz l sl show ?thesis by blast
qed

lemma msb_first_A: "msb_first 65 = [False, True, False, False, False, False, False, True]"
  by code_simp

theorem init_str_spec_witness:
  "bitset_init_str True (Some \<lparr>bits = None, len = 0\<rparr>) (Some ''A'') 1 =
     Inr (BITSET_GOOD, Some \<lparr>bits = Some [False, True, False, False, False, False, False, True], len = 8\<rparr>)"
proof -
  have n: "(1 :: size_t) \<noteq> 0" "unat (1 :: size_t) < 2 ^ 61" by simp_all
  have c: "[False, True, False, False, False, False, False, True]
         = concat (map (\<lambda>i. if i < c_strlen ''A'' then msb_first (of_char (''A'' ! i))
                              else replicate 8 False) [0..<unat (1 :: size_t)])"
    by (simp add: msb_first_A c_strlen_def)
  from init_str_spec [OF n c, of "\<lparr>bits = None, len = 0\<rparr>"]
  show ?thesis by (simp add: CHAR_LEN_def)
qed

lemma init_str_overflow_fault:
  "bitset_init_str True (Some \<lparr>bits = None, len = 0\<rparr>) (Some ''AB'') (2 ^ 61 + 1) = Inl OutOfBounds"
proof -
  have p: "(2305843009213693953 :: size_t) * CHAR_LEN = 8" by (simp add: CHAR_LEN_def)
  have u: "unat (2305843009213693953 :: size_t) = 2305843009213693953" by simp
  have s0: "str_loop 0 2305843009213693953 ''AB'' (replicate 8 False)
      = str_loop (Suc 0) 2305843009213693953 ''AB'' (msb_first 65)"
    by (subst str_loop.simps)
       (simp add: c_str_def bits_from_char_result bind_f_def memcpy_in_def CHAR_LEN_def msb_first_length del: str_loop.simps)
  have s1: "str_loop (Suc 0) 2305843009213693953 ''AB'' (msb_first 65) = Inl OutOfBounds"
    by (subst str_loop.simps)
       (simp add: c_str_def bits_from_char_result bind_f_def memcpy_in_def CHAR_LEN_def msb_first_length del: str_loop.simps)
  show ?thesis
    by (simp add: bitset_init_str_def calloc_bits_def Let_def p u s0 s1 bind_f_def del: str_loop.simps)
qed

text \<open>
  Claim C6 at its failing input. The claim asks, for every \<open>n > 0\<close>, that a successful
  \<^verbatim>\<open>bitset_init_str\<close> gives a bitset of exactly \<open>8 * n\<close> cells with character \<open>i\<close> in the
  cells \<open>[8 * i, 8 * i + 8)\<close>. The code computes the size as the unchecked \<^verbatim>\<open>size_t\<close>
  product \<^verbatim>\<open>n * CHAR_LEN\<close>, which wraps: with \<open>n = 2 ^ 61 + 1\<close> it is 8. From the string
  \<^verbatim>\<open>"A"\<close> the call returns \<^verbatim>\<open>BITSET_GOOD\<close> with 8 cells, not \<open>8 * n\<close>; from \<^verbatim>\<open>"AB"\<close>,
  with the allocation successful, the second character is written at the cells
  \<open>[8, 16)\<close> of a buffer of 8 cells, outside the allocation.
\<close>

theorem init_str_overflow_counterexample:
  "bitset_init_str True (Some \<lparr>bits = None, len = 0\<rparr>) (Some ''A'') (2 ^ 61 + 1) =
     Inr (BITSET_GOOD, Some \<lparr>bits = Some [False, True, False, False, False, False, False, True], len = 8\<rparr>)
   \<and> length [False, True, False, False, False, False, False, True] \<noteq> unat (2 ^ 61 + 1 :: size_t) * 8
   \<and> bitset_init_str True (Some \<lparr>bits = None, len = 0\<rparr>) (Some ''AB'') (2 ^ 61 + 1) = Inl OutOfBounds"
proof -
  have n: "(2 ^ 61 + 1 :: size_t) \<noteq> 0" by simp
  have p: "(2 ^ 61 + 1 :: size_t) * CHAR_LEN = 8" by (simp add: CHAR_LEN_def)
  have u: "unat (2 ^ 61 + 1 :: size_t) = 2 ^ 61 + 1" by simp
  have m: "min (unat (2 ^ 61 + 1 :: size_t)) (c_strlen ''A'') = 1"
    unfolding u by (simp add: c_strlen_def)
  have fits: "8 * min (unat (2 ^ 61 + 1 :: size_t)) (c_strlen ''A'') \<le> unat ((2 ^ 61 + 1 :: size_t) * CHAR_LEN)"
    unfolding m p by simp
  from init_str_result [OF n fits, of "\<lparr>bits = None, len = 0\<rparr>"]
  have "bitset_init_str True (Some \<lparr>bits = None, len = 0\<rparr>) (Some ''A'') (2 ^ 61 + 1) =
     Inr (BITSET_GOOD, Some \<lparr>bits = Some [False, True, False, False, False, False, False, True], len = 8\<rparr>)"
    unfolding m p by (simp add: msb_first_A)
  moreover have "length [False, True, False, False, False, False, False, True] \<noteq> unat (2 ^ 61 + 1 :: size_t) * 8"
    unfolding u by simp
  ultimately show ?thesis using init_str_overflow_fault by blast
qed

text \<open>
  Claim C8 at its failing input. \<^verbatim>\<open>bitset_init_str\<close> with the empty string and
  \<open>n = 2 ^ 61\<close> passes the test \<^verbatim>\<open>n == 0\<close>, stores \<^verbatim>\<open>len = n * CHAR_LEN = 0\<close> and, when
  \<^verbatim>\<open>calloc(0, 1)\<close> gives a non-null pointer, returns \<^verbatim>\<open>BITSET_GOOD\<close>: a bitset with a
  buffer and \<^verbatim>\<open>len = 0\<close>. On it \<^verbatim>\<open>bitset_lrot\<close> and \<^verbatim>\<open>bitset_rrot\<close> pass the
  initialization check and evaluate \<^verbatim>\<open>n % b->len\<close> with \<^verbatim>\<open>b->len\<close> equal to 0.
\<close>

theorem rot_mod_by_zero_reachable:
  "bitset_init_str True (Some \<lparr>bits = None, len = 0\<rparr>) (Some []) (2 ^ 61) =
     Inr (BITSET_GOOD, Some \<lparr>bits = Some [], len = 0\<rparr>)
   \<and> bitset_lrot True (Some \<lparr>bits = Some [], len = 0\<rparr>) 1 = Inl DivByZero
   \<and> bitset_rrot True (Some \<lparr>bits = Some [], len = 0\<rparr>) 1 = Inl DivByZero"
proof -
  have n: "(2 ^ 61 :: size_t) \<noteq> 0" by simp
  have p: "(2 ^ 61 :: size_t) * CHAR_LEN = 0" by (simp add: CHAR_LEN_def)
  have m: "min (unat (2 ^ 61 :: size_t)) (c_strlen []) = 0" by (simp add: c_strlen_def)
  have fits: "8 * min (unat (2 ^ 61 :: size_t)) (c_strlen []) \<le> unat ((2 ^ 61 :: size_t) * CHAR_LEN)"
    unfolding m by simp
  from init_str_result [OF n fits, of "\<lparr>bits = None, len = 0\<rparr>"]
  have "bitset_init_str True (Some \<lparr>bits = None, len = 0\<rparr>) (Some []) (2 ^ 61) =
     Inr (BITSET_GOOD, Some \<lparr>bits = Some [], len = 0\<rparr>)"
    unfolding m p by simp
  then show ?thesis by (simp add: bitset_lrot_def bitset_rrot_def)
qed

section \<open>The initialization check of the rotations\<close>

text \<open>
  What does hold of the rotations' modulo: the check of the handle and of the buffer
  comes first, so a null handle, a never-initialized or a released bitset is answered
  with \<^verbatim>\<open>BITSET_NULL_ERR\<close> whatever its \<^verbatim>\<open>len\<close>; an initialized bitset never makes
  the modulo divide by zero; and \<^verbatim>\<open>bitset_init\<close>, \<^verbatim>\<open>bitset_init_bstr\<close>, and
  \<^verbatim>\<open>bitset_init_str\<close> for \<open>n < 2 ^ 61\<close>, only ever succeed with an initialized bitset.
\<close>

lemma rot_null_handle:
  "bitset_lrot ok None n = Inr (BITSET_NULL_ERR, None)
   \<and> bitset_rrot ok None n = Inr (BITSET_NULL_ERR, None)"
  by (simp add: bitset_lrot_def bitset_rrot_def)

lemma rot_uninitialized:
  "bits b = None \<Longrightarrow>
     bitset_lrot ok (Some b) n = Inr (BITSET_NULL_ERR, Some b)
   \<and> bitset_rrot ok (Some b) n = Inr (BITSET_NULL_ERR, Some b)"
  by (simp add: bitset_lrot_def bitset_rrot_def)

lemma rot_after_free:
  "bitset_lrot ok (bitset_free (Some b)) n = Inr (BITSET_NULL_ERR, bitset_free (Some b))
   \<and> bitset_rrot ok (bitset_free (Some b)) n = Inr (BITSET_NULL_ERR, bitset_free (Some b))"
  by (simp add: bitset_free_def rot_uninitialized)

lemma rot_initialized_no_fault:
  assumes "initialized b"
  shows "bitset_lrot ok (Some b) n \<noteq> Inl DivByZero \<and> bitset_rrot ok (Some b) n \<noteq> Inl DivByZero"
  using rot_len [OF assms, of ok n] by auto

lemma init_initialized:
  "bitset_init ok (Some b) n = Inr (BITSET_GOOD, Some b') \<Longrightarrow> initialized b'"
  by (auto simp: bitset_init_def calloc_bits_def Let_def initialized_def split: if_splits)

lemma init_bstr_initialized:
  assumes "bitset_init_bstr ok (Some b) (Some s) n = Inr (BITSET_GOOD, Some b')"
  shows "initialized b'"
proof -
  from assms have n: "n \<noteq> 0" by (auto simp: bitset_init_bstr_def split: if_splits)
  from assms n have ok by (cases ok) (auto simp: bitset_init_bstr_def calloc_bits_def Let_def)
  have "bstr_loop 0 (unat n) s (replicate (unat n) False) =
     Inr (map (\<lambda>j. s ! j = CHR ''1'') [0..<min (unat n) (c_strlen s)]
          @ replicate (unat n - min (unat n) (c_strlen s)) False)"
    using bstr_loop_result [of 0 "unat n" "replicate (unat n) False" s] by simp
  with assms n \<open>ok\<close> show ?thesis
    by (auto simp: bitset_init_bstr_def calloc_bits_def Let_def bind_f_def initialized_def
             simp del: bstr_loop.simps)
qed

lemma init_str_initialized:
  assumes "bitset_init_str ok (Some b) (Some s) n = Inr (BITSET_GOOD, Some b')"
    and "unat n < 2 ^ 61"
  shows "initialized b'"
proof -
  from assms(1) have n: "n \<noteq> 0" by (auto simp: bitset_init_str_def split: if_splits)
  from assms(1) n have ok by (cases ok) (auto simp: bitset_init_str_def calloc_bits_def Let_def)
  have sz: "unat (n * CHAR_LEN) = unat n * 8"
    using assms(2) by (simp add: CHAR_LEN_def unat_word_ariths)
  then have fits: "8 * min (unat n) (c_strlen s) \<le> unat (n * CHAR_LEN)" by simp
  have nz: "n * CHAR_LEN \<noteq> 0" using sz n by (metis mult_eq_0_iff unat_eq_0 zero_neq_numeral)
  have "length (concat (map (\<lambda>j. msb_first (of_char (s ! j))) [0..<min (unat n) (c_strlen s)])) =
      8 * min (unat n) (c_strlen s)"
    using block_length [of "[0..<min (unat n) (c_strlen s)]" "\<lambda>j. msb_first (of_char (s ! j))" 8]
    by (simp add: msb_first_length)
  with init_str_result [OF n fits, of b] assms(1) \<open>ok\<close> fits nz show ?thesis
    by (auto simp: initialized_def)
qed

end
